theory Spec2Isabelle
  imports Complex_Main
begin

section \<open>Similarity grouping of attractions\<close>

text \<open>
  A shallow embedding of \<^verbatim>\<open>attractions_similarity_updater.py\<close>. The external
  collaborators (record fetch, \<^verbatim>\<open>data_preprocess\<close>, the sentence encoder and
  \<^verbatim>\<open>util.cos_sim\<close>) are replaced by their results: the list \<open>ids\<close> of the
  \<^verbatim>\<open>uuid\<close> column of the pre-processed frame, in row order (the frame carries the
  default labels \<open>0..n-1\<close>), and the square matrix \<open>cosine_scores\<close>, whose side
  \<^verbatim>\<open>len(cosine_scores)\<close> is the number \<open>n\<close> of rows. Scores are real numbers: the
  code only compares them. \<^verbatim>\<open>uuid.uuid4()\<close> is an injected supply \<open>uuid4\<close>: the
  \<open>k\<close>-th call of a run returns \<open>uuid4 k\<close>.
\<close>

subsection \<open>Data\<close>

datatype error = KeyError string

text \<open>A row of the pairs frame: columns \<^verbatim>\<open>index\<close> (the Python list \<^verbatim>\<open>[i, j]\<close>),
  \<^verbatim>\<open>score\<close>, \<^verbatim>\<open>ind1\<close> and \<^verbatim>\<open>ind2\<close>.\<close>

record pair_row =
  index :: "nat list"
  score :: real
  ind1 :: nat
  ind2 :: nat

text \<open>The \<^verbatim>\<open>similarity_uuid\<close> column starts as the integer \<^verbatim>\<open>0\<close> and is then
  overwritten with uuid strings.\<close>

datatype uuid_cell = IntZero | UuidStr string

record group_row =
  item_id :: string
  similarity_uuid :: uuid_cell

definition SIMILARITY_THRESHOLD :: real where
  "SIMILARITY_THRESHOLD = 0.65"

subsection \<open>Grouping: \<^verbatim>\<open>_groups_idx\<close>\<close>

text \<open>
  The inner loop \<^verbatim>\<open>for group in sets_list\<close> runs over a list that its body
  shortens. Python's list iterator keeps a position \<open>k\<close> and stops as soon as
  \<open>k\<close> reaches the current length, so the loop is a recursion on \<open>k\<close> over the
  current list. \<^verbatim>\<open>group.update(idx)\<close> changes the element at position \<open>k\<close> in
  place, \<^verbatim>\<open>first_match.update(group)\<close> copies its members, and
  \<^verbatim>\<open>sets_list.remove(group)\<close> deletes the first element equal to it, which is
  \<open>remove1\<close>. The state is the list, \<^verbatim>\<open>first_match\<close> and \<^verbatim>\<open>was_selected\<close>.
\<close>

function scan_groups ::
  "nat list \<Rightarrow> nat \<Rightarrow> nat set list \<Rightarrow> nat set \<Rightarrow> bool \<Rightarrow> nat set list \<times> nat set \<times> bool"
where
  "scan_groups idx k sets_list first_match was_selected =
     (if k < length sets_list then
        (let group = sets_list ! k;
             intersec = set idx \<inter> group
         in if intersec \<noteq> {} then
              (let group' = group \<union> set idx;
                   first_match' = first_match \<union> group';
                   sets_list' = remove1 group' (sets_list[k := group'])
               in scan_groups idx (Suc k) sets_list' first_match' True)
            else scan_groups idx (Suc k) sets_list first_match was_selected)
      else (sets_list, first_match, was_selected))"
  by pat_completeness auto
termination
proof (relation "measure (\<lambda>(idx, k, sets_list, first_match, was_selected). length sets_list - k)")
  show "wf (measure (\<lambda>(idx, k, sets_list, first_match, was_selected). length sets_list - k))"
    by simp
next
  fix idx :: "nat list" and k :: nat and sets_list :: "nat set list"
    and first_match :: "nat set" and was_selected :: bool
    and group intersec group' first_match' sets_list'
  assume k: "k < length sets_list"
    and g': "group' = group \<union> set idx"
    and s': "sets_list' = remove1 group' (sets_list[k := group'])"
  have "group' \<in> set (sets_list[k := group'])"
    using k by (simp add: set_update_memI)
  then have "length sets_list' = length sets_list - 1"
    using s' by (simp add: length_remove1)
  then show "((idx, Suc k, sets_list', first_match', True),
              (idx, k, sets_list, first_match, was_selected))
             \<in> measure (\<lambda>(idx, k, sets_list, first_match, was_selected). length sets_list - k)"
    using k by simp
next
  fix idx :: "nat list" and k :: nat and sets_list :: "nat set list"
    and first_match :: "nat set" and was_selected :: bool
  assume "k < length sets_list"
  then show "((idx, Suc k, sets_list, first_match, was_selected),
              (idx, k, sets_list, first_match, was_selected))
             \<in> measure (\<lambda>(idx, k, sets_list, first_match, was_selected). length sets_list - k)"
    by simp
qed

declare scan_groups.simps [simp del]

text \<open>One pass of the outer loop, for one value \<^verbatim>\<open>idx\<close> of the \<^verbatim>\<open>index\<close> column.\<close>

definition group_step :: "nat list \<Rightarrow> nat set list \<Rightarrow> nat set list" where
  "group_step idx sets_list =
     (case scan_groups idx 0 sets_list {} False of
        (sets_list1, first_match, was_selected) \<Rightarrow>
          (let sets_list2 = (if first_match \<noteq> {} then sets_list1 @ [first_match] else sets_list1)
           in if \<not> was_selected then sets_list2 @ [set idx] else sets_list2))"

definition groups_idx :: "pair_row list \<Rightarrow> nat set list" where
  "groups_idx similarity_df = fold group_step (map index similarity_df) []"

subsection \<open>Pair enumeration and scoring: \<^verbatim>\<open>_pairs_df_model\<close>\<close>

text \<open>The nested loops append one dictionary \<^verbatim>\<open>{'index': [i, j], 'score': ...}\<close> per
  \<open>i < j\<close>; \<^verbatim>\<open>range(len(cosine_scores) - 1)\<close> is empty when the length is 0, as
  is \<open>[0..<n - 1]\<close> with the truncating subtraction of \<open>nat\<close>.\<close>

definition pair_list :: "nat \<Rightarrow> (nat \<Rightarrow> nat \<Rightarrow> real) \<Rightarrow> (nat list \<times> real) list" where
  "pair_list n cosine_scores =
     concat (map (\<lambda>i. map (\<lambda>j. ([i, j], cosine_scores i j)) [i + 1..<n]) [0..<n - 1])"

text \<open>\<^verbatim>\<open>sorted(xs, key=..., reverse=True)\<close>: CPython reverses the list, sorts it
  stably in ascending order and reverses the result, which keeps elements with equal keys
  in their original order.\<close>

definition sorted_reverse :: "('a \<Rightarrow> real) \<Rightarrow> 'a list \<Rightarrow> 'a list" where
  "sorted_reverse key xs = rev (sort_key key (rev xs))"

text \<open>\<^verbatim>\<open>pd.DataFrame(pairs)\<close> of an empty list has no columns, so
  \<^verbatim>\<open>pairs_df["index"]\<close> raises \<^verbatim>\<open>KeyError\<close> there.\<close>

definition pairs_df_model :: "nat \<Rightarrow> (nat \<Rightarrow> nat \<Rightarrow> real) \<Rightarrow> error + pair_row list" where
  "pairs_df_model n cosine_scores =
     (let pairs = sorted_reverse snd (pair_list n cosine_scores)
      in if pairs = [] then Inl (KeyError ''index'')
         else Inr (map (\<lambda>x. \<lparr>index = fst x, score = snd x,
                               ind1 = fst x ! 0, ind2 = fst x ! 1\<rparr>) pairs))"

subsection \<open>The dense matrix: \<^verbatim>\<open>similarity_matrix\<close>\<close>

text \<open>A cell of the frame is empty (\<^verbatim>\<open>NaN\<close>) until written; the diagonal gets the
  integer 1, every other cell the array \<^verbatim>\<open>.values\<close> of the scores of the rows
  selected by \<^verbatim>\<open>ind1 == i\<close> and \<^verbatim>\<open>ind2 == j\<close>. An assignment
  \<^verbatim>\<open>similarity_matrix.iloc[i][j] = v\<close> writes the cell in row \<open>i\<close>, column \<open>j\<close>.\<close>

datatype matrix_cell = NaN | One | Scores "real list"

definition matrix_step ::
  "pair_row list \<Rightarrow> nat \<Rightarrow> nat \<Rightarrow> (nat \<times> nat \<Rightarrow> matrix_cell) \<Rightarrow> (nat \<times> nat \<Rightarrow> matrix_cell)"
where
  "matrix_step similarity_idx_df i j m =
     (if j = i then (m((i, j) := One))((j, i) := One)
      else (let similarity_score =
                  Scores (map score (filter (\<lambda>r. ind1 r = i \<and> ind2 r = j) similarity_idx_df))
            in (m((i, j) := similarity_score))((j, i) := similarity_score)))"

definition similarity_matrix :: "pair_row list \<Rightarrow> nat \<Rightarrow> (nat \<times> nat \<Rightarrow> matrix_cell)" where
  "similarity_matrix similarity_idx_df n =
     fold (\<lambda>i. fold (matrix_step similarity_idx_df i) [i..<n]) [0..<n] (\<lambda>c. NaN)"

subsection \<open>Labelling: \<^verbatim>\<open>_groups_df\<close>\<close>

text \<open>The frame \<^verbatim>\<open>df_above_threshold\<close> is a list of labelled rows. Each pass of the
  loop draws one uuid and writes it into the rows whose labels are in the group;
  \<^verbatim>\<open>.loc\<close> with a label that the frame lacks raises \<^verbatim>\<open>KeyError\<close>.\<close>

fun label_groups ::
  "(nat \<Rightarrow> string) \<Rightarrow> nat \<Rightarrow> nat set list \<Rightarrow> (nat \<times> group_row) list
     \<Rightarrow> error + (nat \<times> group_row) list"
where
  "label_groups uuid4 k [] frame = Inr frame"
| "label_groups uuid4 k (grp # groups_list) frame =
     (if grp \<subseteq> fst ` set frame then
        label_groups uuid4 (Suc k) groups_list
          (map (\<lambda>(i, r). if i \<in> grp then (i, r\<lparr>similarity_uuid := UuidStr (uuid4 k)\<rparr>)
                          else (i, r)) frame)
      else Inl (KeyError ''similarity_uuid''))"

text \<open>\<^verbatim>\<open>list(set(np.array(...).ravel()))\<close> lists every index of the filtered pairs
  once; Python fixes no order for it, the model lists it ascending. \<^verbatim>\<open>df.loc\<close> with a
  label beyond the rows of \<^verbatim>\<open>df\<close> raises \<^verbatim>\<open>KeyError\<close>.\<close>

definition groups_df ::
  "(nat \<Rightarrow> string) \<Rightarrow> pair_row list \<Rightarrow> string list \<Rightarrow> error + group_row list"
where
  "groups_df uuid4 similarity_df_above_threshold ids =
     (let above_threshold_idx = sort (remdups (concat (map index similarity_df_above_threshold)))
      in if \<exists>i \<in> set above_threshold_idx. length ids \<le> i then Inl (KeyError ''uuid'')
         else
           (let df_above_threshold =
                  map (\<lambda>i. (i, \<lparr>item_id = ids ! i, similarity_uuid = IntZero\<rparr>)) above_threshold_idx;
                groups_list = groups_idx similarity_df_above_threshold
            in case label_groups uuid4 0 groups_list df_above_threshold of
                 Inl e \<Rightarrow> Inl e
               | Inr frame \<Rightarrow> Inr (map snd frame)))"

subsection \<open>The pipeline: \<^verbatim>\<open>compute_similarity_groups\<close>\<close>

text \<open>The filter \<^verbatim>\<open>similarity_df[similarity_df["score"] > SIMILARITY_THRESHOLD]\<close>,
  with the value of the module constant as \<open>t\<close>.\<close>

definition above_threshold :: "real \<Rightarrow> pair_row list \<Rightarrow> pair_row list" where
  "above_threshold t similarity_df = filter (\<lambda>r. t < score r) similarity_df"

definition similarity_groups_at ::
  "real \<Rightarrow> (nat \<Rightarrow> string) \<Rightarrow> string list \<Rightarrow> (nat \<Rightarrow> nat \<Rightarrow> real) \<Rightarrow> error + group_row list"
where
  "similarity_groups_at t uuid4 ids cosine_scores =
     (case pairs_df_model (length ids) cosine_scores of
        Inl e \<Rightarrow> Inl e
      | Inr similarity_df \<Rightarrow> groups_df uuid4 (above_threshold t similarity_df) ids)"

definition compute_similarity_groups ::
  "(nat \<Rightarrow> string) \<Rightarrow> string list \<Rightarrow> (nat \<Rightarrow> nat \<Rightarrow> real) \<Rightarrow> error + group_row list"
where
  "compute_similarity_groups uuid4 ids cosine_scores =
     similarity_groups_at SIMILARITY_THRESHOLD uuid4 ids cosine_scores"

subsection \<open>Concrete inputs\<close>

text \<open>A uuid supply with pairwise different values, and the score matrix of four items
  \<open>A\<close>, \<open>B\<close>, \<open>C\<close>, \<open>D\<close> whose vectors are \<open>(25, 0)\<close>, \<open>(24, 7)\<close>, \<open>(15, 20)\<close> and
  \<open>(7, 24)\<close>: every norm is 25 and the cosines are the fractions below. Only the pairs
  \<open>A-B\<close>, \<open>C-D\<close> and \<open>B-C\<close> lie above 0.65.\<close>

definition uuid_supply :: "nat \<Rightarrow> string" where
  "uuid_supply k = CHR ''g'' # replicate k (CHR ''+'')"

definition chain_scores :: "nat \<Rightarrow> nat \<Rightarrow> real" where
  "chain_scores i j =
     (if i = j then 1
      else if {i, j} = {0, 1} then 24 / 25
      else if {i, j} = {2, 3} then 117 / 125
      else if {i, j} = {1, 2} then 4 / 5
      else if {i, j} = {0, 2} then 3 / 5
      else if {i, j} = {1, 3} then 336 / 625
      else 7 / 25)"

definition row :: "nat \<Rightarrow> nat \<Rightarrow> real \<Rightarrow> pair_row" where
  "row i j s = \<lparr>index = [i, j], score = s, ind1 = i, ind2 = j\<rparr>"

text \<open>Four items of which \<open>A\<close> and \<open>B\<close> score exactly 0.65 (the cosine of
  \<open>(1, 0, 0, 0, 0)\<close> and \<open>(13, 15, 2, 1, 1)\<close>), \<open>C\<close> and \<open>D\<close> score 0.9, and every
  other pair scores 0.1.\<close>

definition boundary_scores :: "nat \<Rightarrow> nat \<Rightarrow> real" where
  "boundary_scores i j =
     (if i = j then 1
      else if {i, j} = {0, 1} then 13 / 20
      else if {i, j} = {2, 3} then 9 / 10
      else 1 / 10)"

subsection \<open>Predicates and auxiliary functions of the proofs\<close>

text \<open>Every set of a list of groups is finite and has at least two members.\<close>

definition big_sets :: "nat set list \<Rightarrow> bool" where
  "big_sets L \<longleftrightarrow> (\<forall>g \<in> set L. finite g \<and> 2 \<le> card g)"

text \<open>The row that \<^verbatim>\<open>_pairs_df_model\<close> builds from one dictionary of the pair list,
  the rows of a whole run, and the dictionaries appended for one value of \<open>i\<close>.\<close>

definition pair_row_of :: "nat list \<times> real \<Rightarrow> pair_row" where
  "pair_row_of x = \<lparr>index = fst x, score = snd x, ind1 = fst x ! 0, ind2 = fst x ! 1\<rparr>"

definition scored_rows :: "nat \<Rightarrow> (nat \<Rightarrow> nat \<Rightarrow> real) \<Rightarrow> pair_row list" where
  "scored_rows n cs = map pair_row_of (sorted_reverse snd (pair_list n cs))"

definition pair_block :: "nat \<Rightarrow> (nat \<Rightarrow> nat \<Rightarrow> real) \<Rightarrow> nat \<Rightarrow> (nat list \<times> real) list" where
  "pair_block n cs i = map (\<lambda>j. ([i, j], cs i j)) [i + 1..<n]"

text \<open>Index order: the order in which the loops visit the pairs, on dictionaries and on
  rows; and the order of the sorted frame, by falling score and then by index order.\<close>

definition pair_before :: "nat list \<times> real \<Rightarrow> nat list \<times> real \<Rightarrow> bool" where
  "pair_before x y \<longleftrightarrow> fst x ! 0 < fst y ! 0 \<or> (fst x ! 0 = fst y ! 0 \<and> fst x ! 1 < fst y ! 1)"

definition index_before :: "pair_row \<Rightarrow> pair_row \<Rightarrow> bool" where
  "index_before r r' \<longleftrightarrow> ind1 r < ind1 r' \<or> (ind1 r = ind1 r' \<and> ind2 r < ind2 r')"

definition score_order :: "pair_row \<Rightarrow> pair_row \<Rightarrow> bool" where
  "score_order r r' \<longleftrightarrow> score r' < score r \<or> (score r = score r' \<and> index_before r r')"

text \<open>The value that \<^verbatim>\<open>similarity_matrix\<close> writes into the cell \<open>(a, b)\<close>, and the
  cells written by the passes \<open>j < k\<close> of the inner loop for row \<open>i\<close>.\<close>

definition cell_value :: "pair_row list \<Rightarrow> nat \<Rightarrow> nat \<Rightarrow> matrix_cell" where
  "cell_value df a b =
     (if a = b then One
      else Scores (map score (filter (\<lambda>r. ind1 r = min a b \<and> ind2 r = max a b) df)))"

definition in_row :: "nat \<Rightarrow> nat \<Rightarrow> nat \<times> nat \<Rightarrow> bool" where
  "in_row i k c \<longleftrightarrow> (fst c = i \<and> i \<le> snd c \<and> snd c < k) \<or> (snd c = i \<and> i \<le> fst c \<and> fst c < k)"

section \<open>The grouping routine\<close>

subsection \<open>What every scan preserves\<close>

lemma Union_remove1:
  assumes "y \<in> set M"
  shows "\<Union>(set (remove1 y M)) \<union> y = \<Union>(set M)"
proof -
  have "set M = insert y (set (remove1 y M))"
    using assms by (induction M) auto
  then show ?thesis by auto
qed

lemma Union_update:
  assumes "k < length L" and "L ! k \<subseteq> Y"
  shows "\<Union>(set (L[k := Y])) = \<Union>(set L) \<union> Y"
proof
  show "\<Union>(set (L[k := Y])) \<subseteq> \<Union>(set L) \<union> Y"
    using set_update_subset_insert [of L k Y] by auto
next
  show "\<Union>(set L) \<union> Y \<subseteq> \<Union>(set (L[k := Y]))"
  proof
    fix x assume "x \<in> \<Union>(set L) \<union> Y"
    then consider "x \<in> Y" | m where "m < length L" "x \<in> L ! m"
      by (auto simp: in_set_conv_nth)
    then show "x \<in> \<Union>(set (L[k := Y]))"
    proof cases
      case 1
      then show ?thesis using assms(1) set_update_memI [of k L Y] by auto
    next
      case 2
      show ?thesis
      proof (cases "m = k")
        case True
        then have "x \<in> Y" using 2 assms(2) by auto
        then show ?thesis using assms(1) set_update_memI [of k L Y] by auto
      next
        case False
        then have "L[k := Y] ! m = L ! m" by simp
        moreover have "m < length (L[k := Y])" using 2 by simp
        ultimately have "L ! m \<in> set (L[k := Y])" by (metis nth_mem)
        then show ?thesis using 2 by auto
      qed
    qed
  qed
qed

lemma merge_step_union:
  assumes "k < length L"
  shows "\<Union>(set (remove1 (L ! k \<union> X) (L[k := L ! k \<union> X]))) \<union> (L ! k \<union> X) = \<Union>(set L) \<union> X"
proof -
  have "L ! k \<union> X \<in> set (L[k := L ! k \<union> X])"
    using assms by (simp add: set_update_memI)
  then have "\<Union>(set (remove1 (L ! k \<union> X) (L[k := L ! k \<union> X]))) \<union> (L ! k \<union> X)
             = \<Union>(set (L[k := L ! k \<union> X]))"
    by (rule Union_remove1)
  also have "\<dots> = \<Union>(set L) \<union> (L ! k \<union> X)"
    using assms by (intro Union_update) auto
  also have "\<dots> = \<Union>(set L) \<union> X"
    using nth_mem [OF assms] by auto
  finally show ?thesis .
qed

lemma scan_groups_union:
  "scan_groups idx k L fm sel = (L', fm', sel')
   \<Longrightarrow> \<Union>(set L') \<union> fm' \<union> set idx = \<Union>(set L) \<union> fm \<union> set idx"
proof (induction idx k L fm sel rule: scan_groups.induct)
  case (1 idx k L fm sel)
  show ?case
  proof (cases "k < length L")
    case False
    then show ?thesis using "1.prems" by (simp add: scan_groups.simps)
  next
    case k: True
    show ?thesis
    proof (cases "set idx \<inter> L ! k \<noteq> {}")
      case True
      let ?g = "L ! k \<union> set idx"
      have run: "scan_groups idx (Suc k) (remove1 ?g (L[k := ?g])) (fm \<union> ?g) True = (L', fm', sel')"
        using "1.prems" k True by (simp add: scan_groups.simps [of idx k] Let_def)
      have "\<Union>(set L') \<union> fm' \<union> set idx
            = \<Union>(set (remove1 ?g (L[k := ?g]))) \<union> (fm \<union> ?g) \<union> set idx"
        using "1.IH"(1) [OF k refl refl True refl refl refl run] .
      also have "\<dots> = (\<Union>(set (remove1 ?g (L[k := ?g]))) \<union> ?g) \<union> fm \<union> set idx"
        by auto
      also have "\<dots> = (\<Union>(set L) \<union> set idx) \<union> fm \<union> set idx"
        using merge_step_union [OF k, of "set idx"] by simp
      finally show ?thesis by auto
    next
      case False
      have run: "scan_groups idx (Suc k) L fm sel = (L', fm', sel')"
        using "1.prems" k False by (simp add: scan_groups.simps [of idx k] Let_def)
      show ?thesis using "1.IH"(2) [OF k refl refl _ run] False by simp
    qed
  qed
qed


lemma scan_groups_grows:
  "scan_groups idx k L fm sel = (L', fm', sel')
   \<Longrightarrow> fm \<subseteq> fm' \<and> (sel \<longrightarrow> sel') \<and> (sel' \<and> \<not> sel \<longrightarrow> set idx \<subseteq> fm')
       \<and> (\<not> sel' \<longrightarrow> L' = L \<and> fm' = fm)"
proof (induction idx k L fm sel rule: scan_groups.induct)
  case (1 idx k L fm sel)
  show ?case
  proof (cases "k < length L")
    case False
    then show ?thesis using "1.prems" by (simp add: scan_groups.simps)
  next
    case k: True
    show ?thesis
    proof (cases "set idx \<inter> L ! k \<noteq> {}")
      case True
      let ?g = "L ! k \<union> set idx"
      have run: "scan_groups idx (Suc k) (remove1 ?g (L[k := ?g])) (fm \<union> ?g) True = (L', fm', sel')"
        using "1.prems" k True by (simp add: scan_groups.simps [of idx k] Let_def)
      show ?thesis
        using "1.IH"(1) [OF k refl refl True refl refl refl run] by auto
    next
      case False
      have run: "scan_groups idx (Suc k) L fm sel = (L', fm', sel')"
        using "1.prems" k False by (simp add: scan_groups.simps [of idx k] Let_def)
      show ?thesis using "1.IH"(2) [OF k refl refl _ run] False by simp
    qed
  qed
qed

lemma scan_groups_big:
  "scan_groups idx k L fm sel = (L', fm', sel') \<Longrightarrow> big_sets L \<Longrightarrow> finite fm
   \<Longrightarrow> big_sets L' \<and> finite fm'"
proof (induction idx k L fm sel rule: scan_groups.induct)
  case (1 idx k L fm sel)
  show ?case
  proof (cases "k < length L")
    case False
    then show ?thesis using "1.prems" by (simp add: scan_groups.simps)
  next
    case k: True
    show ?thesis
    proof (cases "set idx \<inter> L ! k \<noteq> {}")
      case True
      let ?g = "L ! k \<union> set idx"
      have run: "scan_groups idx (Suc k) (remove1 ?g (L[k := ?g])) (fm \<union> ?g) True = (L', fm', sel')"
        using "1.prems"(1) k True by (simp add: scan_groups.simps [of idx k] Let_def)
      have gk: "finite (L ! k) \<and> 2 \<le> card (L ! k)"
        using "1.prems"(2) nth_mem [OF k] by (simp add: big_sets_def)
      then have g: "finite ?g \<and> 2 \<le> card ?g"
        using card_mono [of ?g "L ! k"] by auto
      have "big_sets (L[k := ?g])"
        using "1.prems"(2) g set_update_subset_insert [of L k ?g] by (auto simp: big_sets_def)
      then have b: "big_sets (remove1 ?g (L[k := ?g]))"
        using set_remove1_subset [of ?g "L[k := ?g]"] by (auto simp: big_sets_def)
      have f: "finite (fm \<union> ?g)" using "1.prems"(3) g by simp
      show ?thesis
        using "1.IH"(1) [OF k refl refl True refl refl refl run b f] .
    next
      case False
      have run: "scan_groups idx (Suc k) L fm sel = (L', fm', sel')"
        using "1.prems"(1) k False by (simp add: scan_groups.simps [of idx k] Let_def)
      show ?thesis using "1.IH"(2) [OF k refl refl _ run "1.prems"(2,3)] False by simp
    qed
  qed
qed

lemma group_step_union: "\<Union>(set (group_step idx L)) = \<Union>(set L) \<union> set idx"
proof -
  obtain L' fm' sel' where run: "scan_groups idx 0 L {} False = (L', fm', sel')"
    by (metis prod_cases3)
  have u: "\<Union>(set L') \<union> fm' \<union> set idx = \<Union>(set L) \<union> set idx"
    using scan_groups_union [OF run] by simp
  have g: "(sel' \<longrightarrow> set idx \<subseteq> fm') \<and> (\<not> sel' \<longrightarrow> fm' = {})"
    using scan_groups_grows [OF run] by simp
  show ?thesis
  proof (cases sel')
    case True
    then have "\<Union>(set (group_step idx L)) = \<Union>(set L') \<union> fm'"
      by (auto simp add: group_step_def run)
    then show ?thesis using u g True by auto
  next
    case False
    then have "\<Union>(set (group_step idx L)) = \<Union>(set L') \<union> set idx"
      using g by (auto simp add: group_step_def run)
    then show ?thesis using u g False by auto
  qed
qed

lemma group_step_big:
  assumes "big_sets L" and "2 \<le> card (set idx)"
  shows "big_sets (group_step idx L)"
proof -
  obtain L' fm' sel' where run: "scan_groups idx 0 L {} False = (L', fm', sel')"
    by (metis prod_cases3)
  have b: "big_sets L' \<and> finite fm'"
    using scan_groups_big [OF run assms(1)] by simp
  have g: "(sel' \<longrightarrow> set idx \<subseteq> fm') \<and> (\<not> sel' \<longrightarrow> fm' = {})"
    using scan_groups_grows [OF run] by simp
  show ?thesis
  proof (cases sel')
    case True
    then have "card (set idx) \<le> card fm'"
      using g b by (simp add: card_mono)
    then have "finite fm' \<and> 2 \<le> card fm'" using b assms(2) by simp
    then show ?thesis using b True by (auto simp: group_step_def run big_sets_def)
  next
    case False
    then show ?thesis using b g assms(2) by (auto simp: group_step_def run big_sets_def)
  qed
qed

lemma fold_group_step_union:
  "\<Union>(set (fold group_step idxs L)) = \<Union>(set L) \<union> \<Union>(set (map set idxs))"
  by (induction idxs arbitrary: L) (auto simp: group_step_union)

lemma fold_group_step_big:
  "big_sets L \<Longrightarrow> \<forall>idx \<in> set idxs. 2 \<le> card (set idx) \<Longrightarrow> big_sets (fold group_step idxs L)"
  by (induction idxs arbitrary: L) (auto simp: group_step_big)

lemma groups_idx_union:
  "\<Union>(set (groups_idx df)) = \<Union>(set (map (set \<circ> index) df))"
  by (simp add: groups_idx_def fold_group_step_union)

text \<open>
  C10 (no set of one element). When every value of the \<^verbatim>\<open>index\<close> column is a list
  \<^verbatim>\<open>[i, j]\<close> of two different indices, every set that \<^verbatim>\<open>_groups_idx\<close> returns is
  finite and has at least two members: each set is built from \<^verbatim>\<open>set(idx)\<close> and only
  grows, so \<^verbatim>\<open>_groups_df\<close> needs no filter for sets of size one, and has none.
\<close>

theorem groups_idx_at_least_two:
  assumes "\<forall>r \<in> set df. \<exists>i j. index r = [i, j] \<and> i \<noteq> j"
  shows "\<forall>g \<in> set (groups_idx df). finite g \<and> 2 \<le> card g"
proof -
  have "\<forall>idx \<in> set (map index df). 2 \<le> card (set idx)"
  proof
    fix idx assume "idx \<in> set (map index df)"
    then obtain i j where "idx = [i, j]" "i \<noteq> j" using assms by auto
    then show "2 \<le> card (set idx)" by simp
  qed
  moreover have "big_sets []" by (simp add: big_sets_def)
  ultimately have "big_sets (groups_idx df)"
    unfolding groups_idx_def by (intro fold_group_step_big)
  then show ?thesis by (simp add: big_sets_def)
qed

theorem groups_idx_at_least_two_witness:
  "index (row 0 1 (24 / 25)) = [0, 1] \<and> (0::nat) \<noteq> 1
   \<and> index (row 2 3 (117 / 125)) = [2, 3] \<and> (2::nat) \<noteq> 3
   \<and> index (row 1 2 (4 / 5)) = [1, 2] \<and> (1::nat) \<noteq> 2
   \<and> groups_idx [row 0 1 (24 / 25), row 2 3 (117 / 125), row 1 2 (4 / 5)] = [{2, 3}, {0, 1, 2}]
   \<and> list_all (\<lambda>g. finite g \<and> 2 \<le> card g)
        (groups_idx [row 0 1 (24 / 25), row 2 3 (117 / 125), row 1 2 (4 / 5)])"
proof -
  have h: "\<forall>r \<in> set [row 0 1 (24 / 25), row 2 3 (117 / 125), row 1 2 (4 / 5)].
       \<exists>i j. index r = [i, j] \<and> i \<noteq> j"
    by (simp add: row_def)
  have e: "groups_idx [row 0 1 (24 / 25), row 2 3 (117 / 125), row 1 2 (4 / 5)] = [{2, 3}, {0, 1, 2}]"
    by code_simp
  have "list_all (\<lambda>g. finite g \<and> 2 \<le> card g)
        (groups_idx [row 0 1 (24 / 25), row 2 3 (117 / 125), row 1 2 (4 / 5)])"
    using groups_idx_at_least_two [OF h] by (simp only: list_all_iff)
  then show ?thesis using e by (simp add: row_def)
qed

subsection \<open>Grouping on a chain of three pairs\<close>

text \<open>
  C1 (order independence of \<^verbatim>\<open>_groups_idx\<close>). The pairs \<open>[0, 1]\<close>, \<open>[2, 3]\<close>,
  \<open>[1, 2]\<close> in this order give the two sets \<open>{2, 3}\<close> and \<open>{0, 1, 2}\<close>; the same
  pairs in the order \<open>[0, 1]\<close>, \<open>[1, 2]\<close>, \<open>[2, 3]\<close> give the single set
  \<open>{0, 1, 2, 3}\<close>. The collection of sets depends on the order of the pair list.
\<close>

theorem groups_idx_order_dependent:
  "groups_idx [row 0 1 (24 / 25), row 2 3 (117 / 125), row 1 2 (4 / 5)] = [{2, 3}, {0, 1, 2}]
   \<and> groups_idx [row 0 1 (24 / 25), row 1 2 (4 / 5), row 2 3 (117 / 125)] = [{0, 1, 2, 3}]
   \<and> set (groups_idx [row 0 1 (24 / 25), row 2 3 (117 / 125), row 1 2 (4 / 5)])
       \<noteq> set (groups_idx [row 0 1 (24 / 25), row 1 2 (4 / 5), row 2 3 (117 / 125)])"
  by code_simp

text \<open>
  C2 (the returned sets are pairwise disjoint and cover the indices of the pairs). On the
  pairs \<open>[0, 1]\<close>, \<open>[2, 3]\<close>, \<open>[1, 2]\<close> the scan removes the first set it merges, the
  iterator then skips the set \<open>{2, 3}\<close>, and the result holds index 2 in two sets.
\<close>

theorem groups_idx_overlap:
  "groups_idx [row 0 1 (24 / 25), row 2 3 (117 / 125), row 1 2 (4 / 5)] ! 0 = {2, 3}
   \<and> groups_idx [row 0 1 (24 / 25), row 2 3 (117 / 125), row 1 2 (4 / 5)] ! 1 = {0, 1, 2}
   \<and> groups_idx [row 0 1 (24 / 25), row 2 3 (117 / 125), row 1 2 (4 / 5)] ! 0
       \<inter> groups_idx [row 0 1 (24 / 25), row 2 3 (117 / 125), row 1 2 (4 / 5)] ! 1 = {2}"
  by code_simp

text \<open>
  C3 (transitivity of the group id). With the scores \<open>chain_scores\<close> and the threshold
  0.65, \<open>D\<close> and \<open>C\<close> score above the threshold, and so do \<open>C\<close> and \<open>B\<close>, while \<open>D\<close> and
  \<open>B\<close> do not; the run gives \<open>A\<close>, \<open>B\<close> and \<open>C\<close> the second uuid and leaves \<open>D\<close> with
  the first one.
\<close>

theorem group_id_not_transitive:
  "SIMILARITY_THRESHOLD < chain_scores 3 2 \<and> SIMILARITY_THRESHOLD < chain_scores 2 1
   \<and> chain_scores 3 1 \<le> SIMILARITY_THRESHOLD
   \<and> compute_similarity_groups uuid_supply [''A'', ''B'', ''C'', ''D''] chain_scores
       = Inr [\<lparr>item_id = ''A'', similarity_uuid = UuidStr ''g+''\<rparr>,
              \<lparr>item_id = ''B'', similarity_uuid = UuidStr ''g+''\<rparr>,
              \<lparr>item_id = ''C'', similarity_uuid = UuidStr ''g+''\<rparr>,
              \<lparr>item_id = ''D'', similarity_uuid = UuidStr ''g''\<rparr>]"
  by code_simp

text \<open>
  C4 (one uuid per computed set, shared by all its members). For the filtered pairs
  \<open>[0, 1]\<close>, \<open>[2, 3]\<close>, \<open>[1, 2]\<close> the labeller draws \<open>uuid4 0\<close> for the computed set
  \<open>{2, 3}\<close> and \<open>uuid4 1\<close> for \<open>{0, 1, 2}\<close>; the second write replaces the first in
  row 2, so the members 2 and 3 of the computed set \<open>{2, 3}\<close> end with different uuids.
\<close>

theorem groups_df_splits_a_group:
  "{2, 3} \<in> set (groups_idx [row 0 1 (24 / 25), row 2 3 (117 / 125), row 1 2 (4 / 5)])
   \<and> groups_df uuid_supply [row 0 1 (24 / 25), row 2 3 (117 / 125), row 1 2 (4 / 5)]
        [''A'', ''B'', ''C'', ''D'']
       = Inr [\<lparr>item_id = ''A'', similarity_uuid = UuidStr (uuid_supply 1)\<rparr>,
              \<lparr>item_id = ''B'', similarity_uuid = UuidStr (uuid_supply 1)\<rparr>,
              \<lparr>item_id = ''C'', similarity_uuid = UuidStr (uuid_supply 1)\<rparr>,
              \<lparr>item_id = ''D'', similarity_uuid = UuidStr (uuid_supply 0)\<rparr>]
   \<and> uuid_supply 0 \<noteq> uuid_supply 1"
  by code_simp

section \<open>The pairwise scorer\<close>

lemma insort_key_tie_order:
  fixes f :: "'a \<Rightarrow> real"
  assumes "sorted_wrt (\<lambda>x y. f x < f y \<or> (f x = f y \<and> L x y)) ys"
    and "\<forall>y \<in> set ys. L x y"
  shows "sorted_wrt (\<lambda>x y. f x < f y \<or> (f x = f y \<and> L x y)) (insort_key f x ys)"
  using assms
proof (induction ys)
  case Nil
  then show ?case by simp
next
  case (Cons y ys)
  show ?case
  proof (cases "f x \<le> f y")
    case True
    have "\<forall>z \<in> set ys. f y \<le> f z" using Cons.prems(1) by auto
    then have "\<forall>z \<in> set (y # ys). f x < f z \<or> (f x = f z \<and> L x z)"
      using True Cons.prems(2) by fastforce
    then show ?thesis using True Cons.prems(1) by simp
  next
    case False
    have "sorted_wrt (\<lambda>x y. f x < f y \<or> (f x = f y \<and> L x y)) (insort_key f x ys)"
      using Cons by simp
    then show ?thesis using False Cons.prems(1) by (auto simp: set_insort_key)
  qed
qed

lemma sort_key_tie_order:
  fixes f :: "'a \<Rightarrow> real"
  assumes "sorted_wrt L xs"
  shows "sorted_wrt (\<lambda>x y. f x < f y \<or> (f x = f y \<and> L x y)) (sort_key f xs)"
  using assms
proof (induction xs)
  case Nil
  then show ?case by simp
next
  case (Cons x xs)
  have "sort_key f (x # xs) = insort_key f x (sort_key f xs)" by simp
  moreover have "sorted_wrt (\<lambda>x y. f x < f y \<or> (f x = f y \<and> L x y)) (sort_key f xs)"
    using Cons by simp
  moreover have "\<forall>y \<in> set (sort_key f xs). L x y" using Cons.prems by simp
  ultimately show ?case by (simp add: insort_key_tie_order)
qed

lemma sorted_reverse_tie_order:
  assumes "sorted_wrt L xs"
  shows "sorted_wrt (\<lambda>x y. key y < key x \<or> (key x = key y \<and> L x y)) (sorted_reverse key xs)"
proof -
  have "sorted_wrt (\<lambda>x y. L y x) (rev xs)"
    using assms by (simp add: sorted_wrt_rev)
  then have "sorted_wrt (\<lambda>x y. key x < key y \<or> (key x = key y \<and> L y x)) (sort_key key (rev xs))"
    by (rule sort_key_tie_order)
  then have "sorted_wrt (\<lambda>y x. key x < key y \<or> (key x = key y \<and> L y x)) (sorted_reverse key xs)"
    unfolding sorted_reverse_def by (simp add: sorted_wrt_rev)
  then show ?thesis
    by (rule sorted_wrt_mono_rel [rotated]) auto
qed

lemma set_sorted_reverse: "set (sorted_reverse key xs) = set xs"
  by (simp add: sorted_reverse_def)

lemma length_sorted_reverse: "length (sorted_reverse key xs) = length xs"
  by (simp add: sorted_reverse_def)

lemma pair_list_blocks: "pair_list n cs = concat (map (pair_block n cs) [0..<n - 1])"
  by (simp add: pair_list_def pair_block_def [abs_def])

lemma set_pair_list:
  "set (pair_list n cs) = {([i, j], cs i j) | i j. i < j \<and> j < n}"
proof
  show "set (pair_list n cs) \<subseteq> {([i, j], cs i j) | i j. i < j \<and> j < n}"
    by (auto simp: pair_list_def)
next
  show "{([i, j], cs i j) | i j. i < j \<and> j < n} \<subseteq> set (pair_list n cs)"
  proof
    fix x assume "x \<in> {([i, j], cs i j) | i j. i < j \<and> j < n}"
    then obtain i j where x: "x = ([i, j], cs i j)" and ij: "i < j" "j < n" by auto
    show "x \<in> set (pair_list n cs)"
      using x ij by (auto simp: pair_list_def intro!: bexI [of _ i])
  qed
qed

lemma sorted_pair_block: "sorted_wrt pair_before (pair_block n cs i)"
proof -
  have "sorted_wrt (<) [i + 1..<n]" by simp
  then have "sorted_wrt (\<lambda>j j'. pair_before ([i, j], cs i j) ([i, j'], cs i j')) [i + 1..<n]"
    by (rule sorted_wrt_mono_rel [rotated]) (simp add: pair_before_def)
  then show ?thesis by (simp add: pair_block_def sorted_wrt_map)
qed

lemma sorted_pair_blocks:
  "sorted_wrt pair_before (concat (map (pair_block n cs) [0..<k]))"
proof (induction k)
  case 0
  then show ?case by simp
next
  case (Suc k)
  have "\<forall>x \<in> set (concat (map (pair_block n cs) [0..<k])). \<forall>y \<in> set (pair_block n cs k). pair_before x y"
    by (auto simp: pair_block_def pair_before_def)
  then show ?case using Suc sorted_pair_block [of n cs k] by (simp add: sorted_wrt_append)
qed

lemma sorted_pair_list: "sorted_wrt pair_before (pair_list n cs)"
  by (simp add: pair_list_blocks sorted_pair_blocks)

lemma length_pair_blocks:
  "k \<le> m \<Longrightarrow> 2 * length (concat (map (pair_block (Suc m) cs) [0..<k])) + k * k = 2 * (m * k) + k"
proof (induction k)
  case 0
  then show ?case by simp
next
  case (Suc k)
  define len where "len = length (concat (map (pair_block (Suc m) cs) [0..<k]))"
  have ih: "2 * len + k * k = 2 * (m * k) + k"
    using Suc by (simp add: len_def)
  obtain d where d: "m = Suc k + d" using Suc.prems by (metis le_Suc_ex)
  have "length (pair_block (Suc m) cs k) = Suc d"
    by (simp add: pair_block_def d)
  then have step: "length (concat (map (pair_block (Suc m) cs) [0..<Suc k])) = len + Suc d"
    by (simp add: len_def)
  have "2 * (len + Suc d) + Suc k * Suc k = (2 * len + k * k) + (2 * d + 2 * k + 3)"
    by (simp add: algebra_simps)
  also have "\<dots> = (2 * (m * k) + k) + (2 * d + 2 * k + 3)"
    by (simp only: ih)
  also have "\<dots> = 2 * (m * Suc k) + Suc k"
    by (simp add: d algebra_simps)
  finally show ?case by (simp only: step)
qed

lemma length_pair_list: "length (pair_list n cs) = n * (n - 1) div 2"
proof (cases n)
  case 0
  then show ?thesis by (simp add: pair_list_def)
next
  case (Suc m)
  have "2 * length (pair_list (Suc m) cs) + m * m = 2 * (m * m) + m"
    using length_pair_blocks [of m m cs] by (simp add: pair_list_blocks)
  then have "2 * length (pair_list (Suc m) cs) = m * m + m" by linarith
  then have "length (pair_list (Suc m) cs) = (m * m + m) div 2" by linarith
  then show ?thesis using Suc by (simp add: algebra_simps)
qed

lemma sorted_wrt_neq_distinct: "sorted_wrt (\<lambda>a b. a \<noteq> b) xs \<Longrightarrow> distinct xs"
  by (induction xs) auto

lemma distinct_fst_pair_list: "distinct (map fst (pair_list n cs))"
proof -
  have "sorted_wrt (\<lambda>x y. fst x \<noteq> fst y) (pair_list n cs)"
    by (rule sorted_wrt_mono_rel [OF _ sorted_pair_list]) (auto simp: pair_before_def)
  then have "sorted_wrt (\<lambda>a b. a \<noteq> b) (map fst (pair_list n cs))"
    by (simp add: sorted_wrt_map)
  then show ?thesis by (rule sorted_wrt_neq_distinct)
qed


lemma pairs_df_model_rows:
  "pairs_df_model n cs =
     (if pair_list n cs = [] then Inl (KeyError ''index'')
      else Inr (map pair_row_of (sorted_reverse snd (pair_list n cs))))"
proof -
  have "sorted_reverse snd (pair_list n cs) = [] \<longleftrightarrow> pair_list n cs = []"
    using length_sorted_reverse [of snd "pair_list n cs"] by (metis length_0_conv)
  then show ?thesis
    by (simp add: pairs_df_model_def pair_row_of_def [abs_def] Let_def)
qed

lemma distinct_map_same_set:
  assumes "distinct (map f xs)" and "set ys = set xs" and "length ys = length xs"
  shows "distinct (map f ys)"
proof -
  have "card (f ` set xs) = length xs"
    using distinct_card [OF assms(1)] by simp
  then have "card (set (map f ys)) = length (map f ys)"
    using assms(2,3) by simp
  then show ?thesis by (rule card_distinct)
qed

lemma pair_list_nonempty: "2 \<le> n \<Longrightarrow> pair_list n cs \<noteq> []"
proof -
  assume "2 \<le> n"
  then have "([0, 1], cs 0 1) \<in> set (pair_list n cs)"
    unfolding set_pair_list by auto
  then show ?thesis by auto
qed

text \<open>
  C7 (all pairs, sorted). For \<open>n \<ge> 2\<close> rows \<^verbatim>\<open>_pairs_df_model\<close> returns a frame of
  exactly \<open>n (n - 1) / 2\<close> rows, one for each index pair \<open>i < j < n\<close> and none twice,
  each with the score \<open>cosine_scores i j\<close>; the frame is sorted by falling score, and
  rows of equal score stand in index order.
\<close>

theorem pairs_df_model_all_pairs_sorted:
  assumes "2 \<le> n"
  shows "\<exists>df. pairs_df_model n cs = Inr df
     \<and> length df = n * (n - 1) div 2
     \<and> distinct (map index df)
     \<and> set (map index df) = {[i, j] | i j. i < j \<and> j < n}
     \<and> (\<forall>r \<in> set df. index r = [ind1 r, ind2 r] \<and> score r = cs (ind1 r) (ind2 r))
     \<and> sorted_wrt score_order df"
proof -
  define pairs where "pairs = sorted_reverse snd (pair_list n cs)"
  define df where "df = map pair_row_of pairs"
  have run: "pairs_df_model n cs = Inr df"
    using pair_list_nonempty [OF assms] by (simp add: pairs_df_model_rows df_def pairs_def)
  have set_pairs: "set pairs = {([i, j], cs i j) | i j. i < j \<and> j < n}"
    by (simp add: pairs_def set_sorted_reverse set_pair_list)
  have len: "length df = n * (n - 1) div 2"
    by (simp add: df_def pairs_def length_sorted_reverse length_pair_list)
  have idx: "map index df = map fst pairs"
    by (simp add: df_def pair_row_of_def)
  have "distinct (map fst pairs)"
    by (rule distinct_map_same_set [OF distinct_fst_pair_list [of n cs]])
       (simp_all add: pairs_def set_sorted_reverse length_sorted_reverse)
  then have dist: "distinct (map index df)" by (simp only: idx)
  have "fst ` set pairs = {[i, j] | i j. i < j \<and> j < n}"
    unfolding set_pairs by force
  then have cover: "set (map index df) = {[i, j] | i j. i < j \<and> j < n}"
    by (simp add: idx)
  have rows: "\<forall>r \<in> set df. index r = [ind1 r, ind2 r] \<and> score r = cs (ind1 r) (ind2 r)"
    unfolding df_def using set_pairs by (auto simp: pair_row_of_def)
  have "sorted_wrt (\<lambda>x y. snd y < snd x \<or> (snd x = snd y \<and> pair_before x y)) pairs"
    unfolding pairs_def by (rule sorted_reverse_tie_order [OF sorted_pair_list])
  then have "sorted_wrt (\<lambda>x y. score_order (pair_row_of x) (pair_row_of y)) pairs"
    by (rule sorted_wrt_mono_rel [rotated])
       (simp add: score_order_def index_before_def pair_row_of_def pair_before_def)
  then have sorted: "sorted_wrt score_order df"
    by (simp add: df_def sorted_wrt_map)
  show ?thesis using run len dist cover rows sorted by blast
qed

theorem pairs_df_model_all_pairs_sorted_witness:
  "(2::nat) \<le> 4
   \<and> pairs_df_model 4 chain_scores
       = Inr [row 0 1 (24 / 25), row 2 3 (117 / 125), row 1 2 (4 / 5),
              row 0 2 (3 / 5), row 1 3 (336 / 625), row 0 3 (7 / 25)]
   \<and> length [row 0 1 (24 / 25), row 2 3 (117 / 125), row 1 2 (4 / 5),
              row 0 2 (3 / 5), row 1 3 (336 / 625), row 0 3 (7 / 25)] = 4 * (4 - 1) div 2
   \<and> set (map index [row 0 1 (24 / 25), row 2 3 (117 / 125), row 1 2 (4 / 5),
              row 0 2 (3 / 5), row 1 3 (336 / 625), row 0 3 (7 / 25)])
       = {[i, j] | i j. i < j \<and> j < 4}
   \<and> sorted_wrt score_order [row 0 1 (24 / 25), row 2 3 (117 / 125), row 1 2 (4 / 5),
              row 0 2 (3 / 5), row 1 3 (336 / 625), row 0 3 (7 / 25)]"
proof -
  have h: "(2::nat) \<le> 4" by simp
  have e: "pairs_df_model 4 chain_scores
       = Inr [row 0 1 (24 / 25), row 2 3 (117 / 125), row 1 2 (4 / 5),
              row 0 2 (3 / 5), row 1 3 (336 / 625), row 0 3 (7 / 25)]"
    by code_simp
  obtain df where df: "pairs_df_model 4 chain_scores = Inr df"
    and props: "length df = 4 * (4 - 1) div 2"
      "set (map index df) = {[i, j] | i j. i < j \<and> j < 4}"
      "sorted_wrt score_order df"
    using pairs_df_model_all_pairs_sorted [OF h, of chain_scores] by blast
  have "df = [row 0 1 (24 / 25), row 2 3 (117 / 125), row 1 2 (4 / 5),
              row 0 2 (3 / 5), row 1 3 (336 / 625), row 0 3 (7 / 25)]"
    using df e by simp
  then show ?thesis using h e props by blast
qed

subsection \<open>Fewer than two items\<close>

text \<open>
  C6 (no items, or one item, give an empty output without an error). For 0 and for 1
  rows the loops of \<^verbatim>\<open>_pairs_df_model\<close> append nothing, the frame built from the
  empty list has no column \<^verbatim>\<open>index\<close>, and the function, and with it
  \<^verbatim>\<open>compute_similarity_groups\<close>, ends with \<^verbatim>\<open>KeyError\<close> instead of an empty output.
\<close>

theorem fewer_than_two_items_raise:
  "pair_list 0 cosine_scores = [] \<and> pair_list 1 cosine_scores = []
   \<and> pairs_df_model 0 cosine_scores = Inl (KeyError ''index'')
   \<and> pairs_df_model 1 cosine_scores = Inl (KeyError ''index'')
   \<and> compute_similarity_groups uuid4 [] cosine_scores = Inl (KeyError ''index'')
   \<and> compute_similarity_groups uuid4 [a] cosine_scores = Inl (KeyError ''index'')"
  by (simp add: compute_similarity_groups_def similarity_groups_at_def pairs_df_model_def
      sorted_reverse_def pair_list_def)

section \<open>The dense matrix\<close>

lemma pair_row_of_row: "pair_row_of ([i, j], s) = row i j s"
  by (simp add: pair_row_of_def row_def)

lemma set_scored_rows:
  "set (scored_rows n cs) = {row i j (cs i j) | i j. i < j \<and> j < n}"
proof -
  have "set (scored_rows n cs) = pair_row_of ` {([i, j], cs i j) | i j. i < j \<and> j < n}"
    by (simp add: scored_rows_def set_sorted_reverse set_pair_list)
  also have "\<dots> = {pair_row_of ([i, j], cs i j) | i j. i < j \<and> j < n}"
    by blast
  finally show ?thesis by (simp only: pair_row_of_row)
qed

lemma distinct_index_scored_rows: "distinct (map index (scored_rows n cs))"
proof -
  have "map index (scored_rows n cs) = map fst (sorted_reverse snd (pair_list n cs))"
    by (simp add: scored_rows_def pair_row_of_def)
  moreover have "distinct (map fst (sorted_reverse snd (pair_list n cs)))"
    by (rule distinct_map_same_set [OF distinct_fst_pair_list [of n cs]])
       (simp_all add: set_sorted_reverse length_sorted_reverse)
  ultimately show ?thesis by simp
qed

lemma pairs_df_model_Inr:
  "pairs_df_model n cs = Inr df \<Longrightarrow> df = scored_rows n cs"
  by (simp add: pairs_df_model_rows scored_rows_def split: if_splits)

lemma filter_unique:
  "distinct (map f xs) \<Longrightarrow> x \<in> set xs \<Longrightarrow> filter (\<lambda>r. f r = f x) xs = [x]"
proof (induction xs)
  case Nil
  then show ?case by simp
next
  case (Cons y ys)
  show ?case
  proof (cases "y = x")
    case True
    have "\<forall>r \<in> set ys. f r \<noteq> f x" using Cons.prems(1) True by (auto simp: image_iff)
    then have "filter (\<lambda>r. f r = f x) ys = []" by (simp add: filter_empty_conv)
    then show ?thesis using True by simp
  next
    case False
    then have "x \<in> set ys" using Cons.prems(2) by simp
    moreover have "f y \<noteq> f x" using Cons.prems(1) calculation by auto
    ultimately show ?thesis using Cons by simp
  qed
qed

lemma scored_rows_lookup:
  assumes "i < j" and "j < n"
  shows "map score (filter (\<lambda>r. ind1 r = i \<and> ind2 r = j) (scored_rows n cs)) = [cs i j]"
proof -
  have mem: "row i j (cs i j) \<in> set (scored_rows n cs)"
    unfolding set_scored_rows using assms by auto
  have "filter (\<lambda>r. ind1 r = i \<and> ind2 r = j) (scored_rows n cs)
        = filter (\<lambda>r. index r = index (row i j (cs i j))) (scored_rows n cs)"
    by (rule filter_cong) (auto simp: set_scored_rows row_def)
  also have "\<dots> = [row i j (cs i j)]"
    by (rule filter_unique [OF distinct_index_scored_rows mem])
  finally show ?thesis by (simp add: row_def)
qed

lemma matrix_step_cells:
  assumes "i \<le> k"
  shows "matrix_step df i k m = (m((i, k) := cell_value df i k))((k, i) := cell_value df k i)"
proof (cases "k = i")
  case True
  then show ?thesis by (simp add: matrix_step_def cell_value_def)
next
  case False
  then have "i < k" using assms by simp
  then show ?thesis
    by (simp add: matrix_step_def cell_value_def Let_def min_def max_def)
qed

lemma in_row_Suc:
  "i \<le> k \<Longrightarrow> in_row i (Suc k) c \<longleftrightarrow> in_row i k c \<or> c = (i, k) \<or> c = (k, i)"
  by (cases c) (auto simp: in_row_def less_Suc_eq)

lemma in_row_empty: "\<not> i < k \<Longrightarrow> \<not> in_row i k c"
  by (auto simp: in_row_def)

lemma matrix_row_fold:
  "fold (matrix_step df i) [i..<k] m =
     (\<lambda>c. if in_row i k c then cell_value df (fst c) (snd c) else m c)"
proof (induction k)
  case 0
  then show ?case by (simp add: in_row_empty)
next
  case (Suc k)
  show ?case
  proof (cases "i \<le> k")
    case False
    then have "\<not> i < Suc k" by simp
    then show ?thesis by (simp add: in_row_empty)
  next
    case True
    then have "fold (matrix_step df i) [i..<Suc k] m
               = matrix_step df i k (fold (matrix_step df i) [i..<k] m)"
      by simp
    also have "\<dots> = ((\<lambda>c. if in_row i k c then cell_value df (fst c) (snd c) else m c)
                        ((i, k) := cell_value df i k))((k, i) := cell_value df k i)"
      by (simp only: Suc.IH matrix_step_cells [OF True])
    also have "\<dots> = (\<lambda>c. if in_row i (Suc k) c then cell_value df (fst c) (snd c) else m c)"
    proof (rule ext)
      fix c
      show "(((\<lambda>c. if in_row i k c then cell_value df (fst c) (snd c) else m c)
                ((i, k) := cell_value df i k))((k, i) := cell_value df k i)) c
            = (if in_row i (Suc k) c then cell_value df (fst c) (snd c) else m c)"
      proof -
        note suc = in_row_Suc [OF \<open>i \<le> k\<close>, of c]
        consider (swapped) "c = (k, i)" | (straight) "c = (i, k)" "c \<noteq> (k, i)"
          | (other) "c \<noteq> (k, i)" "c \<noteq> (i, k)"
          by blast
        then show ?thesis
        proof cases
          case swapped
          then have "in_row i (Suc k) c" using suc by simp
          then show ?thesis using swapped by simp
        next
          case straight
          then have "in_row i (Suc k) c" using suc by simp
          then show ?thesis using straight by simp
        next
          case other
          then have "in_row i (Suc k) c = in_row i k c" using suc by simp
          then show ?thesis using other by simp
        qed
      qed
    qed
    finally show ?thesis .
  qed
qed

lemma matrix_fold:
  "k \<le> n \<Longrightarrow>
   fold (\<lambda>i. fold (matrix_step df i) [i..<n]) [0..<k] (\<lambda>c. NaN) =
     (\<lambda>c. if min (fst c) (snd c) < k \<and> fst c < n \<and> snd c < n
          then cell_value df (fst c) (snd c) else NaN)"
proof (induction k)
  case 0
  then show ?case by simp
next
  case (Suc k)
  then have ih: "fold (\<lambda>i. fold (matrix_step df i) [i..<n]) [0..<k] (\<lambda>c. NaN) =
     (\<lambda>c. if min (fst c) (snd c) < k \<and> fst c < n \<and> snd c < n
          then cell_value df (fst c) (snd c) else NaN)"
    by simp
  have k: "k < n" using Suc.prems by simp
  have cond: "\<And>c. (min (fst c) (snd c) < Suc k \<and> fst c < n \<and> snd c < n)
       \<longleftrightarrow> in_row k n c \<or> (min (fst c) (snd c) < k \<and> fst c < n \<and> snd c < n)"
    using k by (auto simp: in_row_def min_def less_Suc_eq)
  have "fold (\<lambda>i. fold (matrix_step df i) [i..<n]) [0..<Suc k] (\<lambda>c. NaN)
        = fold (matrix_step df k) [k..<n] (fold (\<lambda>i. fold (matrix_step df i) [i..<n]) [0..<k] (\<lambda>c. NaN))"
    by simp
  also have "\<dots> = (\<lambda>c. if in_row k n c then cell_value df (fst c) (snd c)
                          else if min (fst c) (snd c) < k \<and> fst c < n \<and> snd c < n
                               then cell_value df (fst c) (snd c) else NaN)"
    by (simp only: ih matrix_row_fold)
  also have "\<dots> = (\<lambda>c. if min (fst c) (snd c) < Suc k \<and> fst c < n \<and> snd c < n
          then cell_value df (fst c) (snd c) else NaN)"
    by (rule ext) (auto simp: cond)
  finally show ?case .
qed

lemma similarity_matrix_cells:
  "similarity_matrix df n (a, b) = (if a < n \<and> b < n then cell_value df a b else NaN)"
  by (auto simp: similarity_matrix_def matrix_fold min_def)

lemma cell_value_sym: "cell_value df a b = cell_value df b a"
  by (simp add: cell_value_def min.commute max.commute)

text \<open>
  C8 (symmetry of the score). The frame holds one score per pair \<open>i < j\<close>, and
  \<^verbatim>\<open>similarity_matrix\<close> writes it into both cells: the entries \<open>(i, j)\<close> and \<open>(j, i)\<close>
  of the matrix are equal for all \<open>i\<close> and \<open>j\<close>, and on the frame of
  \<^verbatim>\<open>_pairs_df_model\<close> both are the one score \<open>cosine_scores i j\<close> of the pair
  \<open>i < j < n\<close>.
\<close>

theorem similarity_matrix_symmetric:
  "similarity_matrix df n (i, j) = similarity_matrix df n (j, i)
   \<and> (pairs_df_model n cs = Inr df \<longrightarrow> i < j \<longrightarrow> j < n \<longrightarrow>
        similarity_matrix df n (i, j) = Scores [cs i j]
        \<and> similarity_matrix df n (j, i) = Scores [cs i j])"
proof
  show "similarity_matrix df n (i, j) = similarity_matrix df n (j, i)"
    by (simp add: similarity_matrix_cells cell_value_sym [of df i j] conj_commute)
next
  show "pairs_df_model n cs = Inr df \<longrightarrow> i < j \<longrightarrow> j < n \<longrightarrow>
        similarity_matrix df n (i, j) = Scores [cs i j]
        \<and> similarity_matrix df n (j, i) = Scores [cs i j]"
  proof (intro impI)
    assume run: "pairs_df_model n cs = Inr df" and ij: "i < j" "j < n"
    have df: "df = scored_rows n cs" using run by (rule pairs_df_model_Inr)
    have "cell_value df i j = Scores [cs i j]"
      using ij scored_rows_lookup [OF ij, of cs] by (simp add: cell_value_def df min_def max_def)
    moreover have "cell_value df j i = Scores [cs i j]"
      using ij scored_rows_lookup [OF ij, of cs] by (simp add: cell_value_def df min_def max_def)
    ultimately show "similarity_matrix df n (i, j) = Scores [cs i j]
        \<and> similarity_matrix df n (j, i) = Scores [cs i j]"
      using ij by (simp add: similarity_matrix_cells)
  qed
qed

theorem similarity_matrix_symmetric_witness:
  "pairs_df_model 4 chain_scores
       = Inr [row 0 1 (24 / 25), row 2 3 (117 / 125), row 1 2 (4 / 5),
              row 0 2 (3 / 5), row 1 3 (336 / 625), row 0 3 (7 / 25)]
   \<and> (1::nat) < 2 \<and> (2::nat) < 4
   \<and> similarity_matrix [row 0 1 (24 / 25), row 2 3 (117 / 125), row 1 2 (4 / 5),
              row 0 2 (3 / 5), row 1 3 (336 / 625), row 0 3 (7 / 25)] 4 (1, 2) = Scores [4 / 5]
   \<and> similarity_matrix [row 0 1 (24 / 25), row 2 3 (117 / 125), row 1 2 (4 / 5),
              row 0 2 (3 / 5), row 1 3 (336 / 625), row 0 3 (7 / 25)] 4 (2, 1) = Scores [4 / 5]"
proof -
  have e: "pairs_df_model 4 chain_scores
       = Inr [row 0 1 (24 / 25), row 2 3 (117 / 125), row 1 2 (4 / 5),
              row 0 2 (3 / 5), row 1 3 (336 / 625), row 0 3 (7 / 25)]"
    by code_simp
  have c: "chain_scores 1 2 = 4 / 5" by (simp add: chain_scores_def doubleton_eq_iff)
  show ?thesis
    using e c similarity_matrix_symmetric
      [of "[row 0 1 (24 / 25), row 2 3 (117 / 125), row 1 2 (4 / 5),
            row 0 2 (3 / 5), row 1 3 (336 / 625), row 0 3 (7 / 25)]" 4 1 2 chain_scores]
    by simp
qed

section \<open>Threshold and labelling\<close>

lemma label_groups_total:
  "\<forall>g \<in> set groups_list. g \<subseteq> fst ` set frame
   \<Longrightarrow> \<exists>frame'. label_groups uuid4 k groups_list frame = Inr frame'
         \<and> map fst frame' = map fst frame
         \<and> map (item_id \<circ> snd) frame' = map (item_id \<circ> snd) frame"
proof (induction groups_list arbitrary: k frame)
  case Nil
  then show ?case by simp
next
  case (Cons g gs)
  define frame1 where
    "frame1 = map (\<lambda>(i, r). if i \<in> g then (i, r\<lparr>similarity_uuid := UuidStr (uuid4 k)\<rparr>)
                          else (i, r)) frame"
  have fst1: "map fst frame1 = map fst frame"
    by (auto simp: frame1_def split: prod.splits)
  have id1: "map (item_id \<circ> snd) frame1 = map (item_id \<circ> snd) frame"
    by (auto simp: frame1_def split: prod.splits)
  have "fst ` set frame1 = fst ` set frame"
    using fst1 by (metis set_map)
  then have "\<forall>g \<in> set gs. g \<subseteq> fst ` set frame1"
    using Cons.prems by simp
  then obtain frame' where "label_groups uuid4 (Suc k) gs frame1 = Inr frame'"
    and "map fst frame' = map fst frame1"
    and "map (item_id \<circ> snd) frame' = map (item_id \<circ> snd) frame1"
    using Cons.IH [of frame1 "Suc k"] by blast
  moreover have "label_groups uuid4 k (g # gs) frame = label_groups uuid4 (Suc k) gs frame1"
    using Cons.prems by (simp add: frame1_def)
  ultimately have "label_groups uuid4 k (g # gs) frame = Inr frame'
      \<and> map fst frame' = map fst frame
      \<and> map (item_id \<circ> snd) frame' = map (item_id \<circ> snd) frame"
    by (simp only: fst1 id1)
  then show ?case by (rule exI)
qed

lemma groups_df_total:
  assumes "\<forall>r \<in> set df. \<forall>i \<in> set (index r). i < length ids"
  shows "\<exists>out. groups_df uuid4 df ids = Inr out
           \<and> map item_id out = map ((!) ids) (sort (remdups (concat (map index df))))"
proof -
  define above_threshold_idx where "above_threshold_idx = sort (remdups (concat (map index df)))"
  define frame where
    "frame = map (\<lambda>i. (i, \<lparr>item_id = ids ! i, similarity_uuid = IntZero\<rparr>)) above_threshold_idx"
  have labels: "fst ` set frame = \<Union>(set (map (set \<circ> index) df))"
    by (auto simp: frame_def above_threshold_idx_def image_iff)
  have "\<forall>i \<in> set above_threshold_idx. i < length ids"
    using assms by (auto simp: above_threshold_idx_def)
  then have bound: "\<not> (\<exists>i \<in> set above_threshold_idx. length ids \<le> i)"
    by (simp add: not_le)
  have "\<forall>g \<in> set (groups_idx df). g \<subseteq> fst ` set frame"
    using groups_idx_union [of df] labels by auto
  then obtain frame' where run: "label_groups uuid4 0 (groups_idx df) frame = Inr frame'"
    and ids': "map (item_id \<circ> snd) frame' = map (item_id \<circ> snd) frame"
    using label_groups_total [of "groups_idx df" frame uuid4 0] by blast
  have "groups_df uuid4 df ids = Inr (map snd frame')"
    using bound run
    by (simp add: groups_df_def Let_def above_threshold_idx_def [symmetric] frame_def [symmetric])
  moreover have "map item_id (map snd frame') = map ((!) ids) above_threshold_idx"
    using ids' by (simp add: frame_def comp_def)
  ultimately show ?thesis by (simp add: above_threshold_idx_def)
qed

lemma scored_rows_bound:
  "\<forall>r \<in> set (above_threshold t (scored_rows n cs)). \<forall>i \<in> set (index r). i < n"
  by (auto simp: above_threshold_def set_scored_rows row_def)

lemma pair_list_two: "pair_list 2 cs = [([0, 1], cs 0 1)]"
proof -
  have "[0..<2 - 1] = [0::nat]" by (simp add: upt_rec)
  moreover have "[0 + 1..<2] = [1::nat]" by (simp add: upt_rec)
  ultimately show ?thesis by (simp add: pair_list_def)
qed

lemma groups_df_empty: "groups_df uuid4 [] ids = Inr []"
  by (simp add: groups_df_def groups_idx_def)

lemma similarity_groups_at_items:
  assumes "similarity_groups_at t uuid4 ids cs = Inr out"
  shows "map item_id out =
     map ((!) ids) (sort (remdups (concat (map index
        (above_threshold t (scored_rows (length ids) cs))))))"
proof -
  obtain df where df: "pairs_df_model (length ids) cs = Inr df"
    using assms by (auto simp: similarity_groups_at_def split: sum.splits)
  have rows: "df = scored_rows (length ids) cs" using df by (rule pairs_df_model_Inr)
  have run: "groups_df uuid4 (above_threshold t (scored_rows (length ids) cs)) ids = Inr out"
    using assms df rows by (simp add: similarity_groups_at_def)
  have "\<exists>out'. groups_df uuid4 (above_threshold t (scored_rows (length ids) cs)) ids = Inr out'
      \<and> map item_id out' = map ((!) ids) (sort (remdups (concat (map index
            (above_threshold t (scored_rows (length ids) cs))))))"
    by (rule groups_df_total [OF scored_rows_bound])
  then show ?thesis using run by auto
qed

lemma unpaired_item_absent:
  assumes run: "similarity_groups_at t uuid4 ids cs = Inr out"
    and dist: "distinct ids" and i: "i < length ids"
    and low: "\<forall>k < length ids. k \<noteq> i \<longrightarrow> cs (min i k) (max i k) \<le> t"
  shows "ids ! i \<notin> item_id ` set out"
proof
  assume "ids ! i \<in> item_id ` set out"
  then have "ids ! i \<in> set (map item_id out)" by simp
  then have "ids ! i \<in> (!) ids ` set (concat (map index
        (above_threshold t (scored_rows (length ids) cs))))"
    unfolding similarity_groups_at_items [OF run] by simp
  then obtain a r where a: "ids ! i = ids ! a" and r: "r \<in> set (above_threshold t (scored_rows (length ids) cs))"
    and ar: "a \<in> set (index r)"
    by auto
  have "a < length ids" using scored_rows_bound r ar by blast
  then have "a = i" using a dist i by (simp add: nth_eq_iff_index_eq)
  obtain p q where pq: "p < q" "q < length ids" and rr: "r = row p q (cs p q)" and above: "t < cs p q"
    using r by (auto simp: above_threshold_def set_scored_rows row_def)
  have "i = p \<or> i = q" using ar \<open>a = i\<close> rr by (auto simp: row_def)
  then show False
  proof
    assume "i = p"
    then have "q < length ids \<and> q \<noteq> i" using pq by simp
    then have "cs (min i q) (max i q) \<le> t" using low by blast
    then show False using \<open>i = p\<close> pq above by (simp add: min_def max_def)
  next
    assume "i = q"
    then have "p < length ids \<and> p \<noteq> i" using pq by simp
    then have "cs (min i p) (max i p) \<le> t" using low by blast
    then show False using \<open>i = q\<close> pq above by (simp add: min_def max_def)
  qed
qed

text \<open>
  C5 (strict threshold). The filter keeps exactly the rows whose score is greater than
  the threshold \<open>t\<close>; a row whose score equals \<open>t\<close> is dropped. A run on two items
  whose score equals the threshold returns the empty output, for any \<open>t\<close> and for the
  module constant; and among any number of items with different ids, an item none of
  whose pairs scores above \<open>t\<close> has no row in the output.
\<close>

theorem threshold_filter_strict:
  "set (above_threshold t df) = {r \<in> set df. t < score r}
   \<and> (score r = t \<longrightarrow> r \<notin> set (above_threshold t df))
   \<and> (cs 0 1 = t \<longrightarrow> similarity_groups_at t uuid4 [a, b] cs = Inr [])
   \<and> (cs 0 1 = SIMILARITY_THRESHOLD \<longrightarrow> compute_similarity_groups uuid4 [a, b] cs = Inr [])
   \<and> (similarity_groups_at t uuid4 ids cs = Inr out \<longrightarrow> distinct ids \<longrightarrow> i < length ids \<longrightarrow>
        (\<forall>k < length ids. k \<noteq> i \<longrightarrow> cs (min i k) (max i k) \<le> t) \<longrightarrow>
        ids ! i \<notin> item_id ` set out)"
proof -
  have keep: "set (above_threshold t df) = {r \<in> set df. t < score r}"
    by (auto simp: above_threshold_def)
  have drop: "score r = t \<longrightarrow> r \<notin> set (above_threshold t df)"
    by (simp add: above_threshold_def)
  have len: "length [a, b] = 2" by simp
  have "pairs_df_model 2 cs = Inr [row 0 1 (cs 0 1)]"
    by (simp add: pairs_df_model_def sorted_reverse_def pair_list_two row_def)
  then have pairs: "pairs_df_model (length [a, b]) cs = Inr [row 0 1 (cs 0 1)]"
    by (simp only: len)
  have two: "\<And>u. cs 0 1 = u \<Longrightarrow> similarity_groups_at u uuid4 [a, b] cs = Inr []"
    unfolding similarity_groups_at_def pairs
    by (simp add: above_threshold_def groups_df_empty row_def)
  have at_t: "cs 0 1 = t \<longrightarrow> similarity_groups_at t uuid4 [a, b] cs = Inr []"
    using two [of t] by blast
  have at_default: "cs 0 1 = SIMILARITY_THRESHOLD
      \<longrightarrow> compute_similarity_groups uuid4 [a, b] cs = Inr []"
    using two [of SIMILARITY_THRESHOLD] by (simp only: compute_similarity_groups_def) blast
  have absent: "similarity_groups_at t uuid4 ids cs = Inr out \<longrightarrow> distinct ids \<longrightarrow> i < length ids \<longrightarrow>
        (\<forall>k < length ids. k \<noteq> i \<longrightarrow> cs (min i k) (max i k) \<le> t) \<longrightarrow>
        ids ! i \<notin> item_id ` set out"
    using unpaired_item_absent [of t uuid4 ids cs out i] by blast
  show ?thesis using keep drop at_t at_default absent by blast
qed

theorem threshold_filter_strict_witness:
  "score (row 0 1 (65 / 100)) = 65 / 100
   \<and> row 0 1 (65 / 100) \<notin> set (above_threshold (65 / 100) [row 0 1 (65 / 100), row 0 2 (7 / 10)])
   \<and> above_threshold (65 / 100) [row 0 1 (65 / 100), row 0 2 (7 / 10)] = [row 0 2 (7 / 10)]
   \<and> boundary_scores 0 1 = 65 / 100
   \<and> similarity_groups_at (65 / 100) uuid_supply [''A'', ''B''] boundary_scores = Inr []
   \<and> boundary_scores 0 1 = SIMILARITY_THRESHOLD
   \<and> compute_similarity_groups uuid_supply [''A'', ''B''] boundary_scores = Inr []
   \<and> similarity_groups_at (65 / 100) uuid_supply [''A'', ''B'', ''C'', ''D''] boundary_scores
       = Inr [\<lparr>item_id = ''C'', similarity_uuid = UuidStr ''g''\<rparr>,
              \<lparr>item_id = ''D'', similarity_uuid = UuidStr ''g''\<rparr>]
   \<and> distinct [''A'', ''B'', ''C'', ''D''] \<and> (0::nat) < length [''A'', ''B'', ''C'', ''D'']
   \<and> boundary_scores 0 1 \<le> 65 / 100 \<and> boundary_scores 0 2 \<le> 65 / 100
   \<and> boundary_scores 0 3 \<le> 65 / 100
   \<and> [''A'', ''B'', ''C'', ''D''] ! 0
       \<notin> item_id ` set [\<lparr>item_id = ''C'', similarity_uuid = UuidStr ''g''\<rparr>,
              \<lparr>item_id = ''D'', similarity_uuid = UuidStr ''g''\<rparr>]"
proof -
  have run: "similarity_groups_at (65 / 100) uuid_supply [''A'', ''B'', ''C'', ''D''] boundary_scores
       = Inr [\<lparr>item_id = ''C'', similarity_uuid = UuidStr ''g''\<rparr>,
              \<lparr>item_id = ''D'', similarity_uuid = UuidStr ''g''\<rparr>]"
    by code_simp
  have s: "boundary_scores 0 1 = 65 / 100" "boundary_scores 0 2 = 1 / 10"
    "boundary_scores 0 3 = 1 / 10"
    by (simp_all add: boundary_scores_def doubleton_eq_iff)
  have low: "\<forall>k < length [''A'', ''B'', ''C'', ''D'']. k \<noteq> 0 \<longrightarrow>
      boundary_scores (min 0 k) (max 0 k) \<le> 65 / 100"
  proof (intro allI impI)
    fix k :: nat assume "k < length [''A'', ''B'', ''C'', ''D'']" and "k \<noteq> 0"
    then have "k = 1 \<or> k = 2 \<or> k = 3" by auto
    then show "boundary_scores (min 0 k) (max 0 k) \<le> 65 / 100" using s by auto
  qed
  show ?thesis
    using threshold_filter_strict [of "65 / 100" "[row 0 1 (65 / 100), row 0 2 (7 / 10)]"
      "row 0 1 (65 / 100)" boundary_scores uuid_supply "''A''" "''B''"
      "[''A'', ''B'', ''C'', ''D'']"
      "[\<lparr>item_id = ''C'', similarity_uuid = UuidStr ''g''\<rparr>,
        \<lparr>item_id = ''D'', similarity_uuid = UuidStr ''g''\<rparr>]" 0] run low s
    by (simp add: row_def above_threshold_def SIMILARITY_THRESHOLD_def)
qed

text \<open>
  C9 (threshold parameter and its range check), as the code has it:
  \<^verbatim>\<open>compute_similarity_groups\<close> takes no threshold; it filters with the module
  constant, whose value is 0.65. Nothing checks the value: with any \<open>t\<close> in the place of
  the constant, inside \<open>[-1, 1]\<close> or not, a run on two or more items returns a grouping.
\<close>

theorem threshold_never_checked:
  "compute_similarity_groups uuid4 ids cs = similarity_groups_at (65 / 100) uuid4 ids cs
   \<and> (2 \<le> length ids \<longrightarrow> (\<exists>out. similarity_groups_at t uuid4 ids cs = Inr out))"
proof
  show "compute_similarity_groups uuid4 ids cs = similarity_groups_at (65 / 100) uuid4 ids cs"
    by (simp add: compute_similarity_groups_def SIMILARITY_THRESHOLD_def)
next
  show "2 \<le> length ids \<longrightarrow> (\<exists>out. similarity_groups_at t uuid4 ids cs = Inr out)"
  proof
    assume n: "2 \<le> length ids"
    have run: "pairs_df_model (length ids) cs = Inr (scored_rows (length ids) cs)"
      using pair_list_nonempty [OF n] by (simp add: pairs_df_model_rows scored_rows_def)
    obtain out where
      "groups_df uuid4 (above_threshold t (scored_rows (length ids) cs)) ids = Inr out"
      using groups_df_total [OF scored_rows_bound] by blast
    then show "\<exists>out. similarity_groups_at t uuid4 ids cs = Inr out"
      by (simp add: similarity_groups_at_def run)
  qed
qed

theorem threshold_never_checked_witness:
  "compute_similarity_groups uuid_supply [''A'', ''B''] chain_scores
     = similarity_groups_at (65 / 100) uuid_supply [''A'', ''B''] chain_scores
   \<and> 2 \<le> length [''A'', ''B'']
   \<and> (\<exists>out. similarity_groups_at 2 uuid_supply [''A'', ''B''] chain_scores = Inr out)"
  using threshold_never_checked [of uuid_supply "[''A'', ''B'']" chain_scores 2] by simp

text \<open>With the thresholds 2 and -2, outside \<open>[-1, 1]\<close>, the run on two items returns
  the empty output and one group of both items: no error is raised.\<close>

theorem threshold_out_of_range_accepted:
  "(1::real) < 2
   \<and> similarity_groups_at 2 uuid_supply [''A'', ''B''] chain_scores = Inr []
   \<and> similarity_groups_at (- 2) uuid_supply [''A'', ''B''] chain_scores
       = Inr [\<lparr>item_id = ''A'', similarity_uuid = UuidStr ''g''\<rparr>,
              \<lparr>item_id = ''B'', similarity_uuid = UuidStr ''g''\<rparr>]"
  by code_simp

end
